theory Spec2Isabelle
  imports Main "HOL-Library.Multiset"
begin

section \<open>Order history: data model\<close>

text \<open>
  The development follows \<^verbatim>\<open>src/order_history/views.py\<close>, class \<^verbatim>\<open>HistoryView\<close>.
  A calendar date is modelled by its ordinal day number (Python's \<^verbatim>\<open>date.toordinal()\<close>),
  so the comparisons of the query (\<^verbatim>\<open>completion_date__gte\<close>, \<^verbatim>\<open>__lte\<close>) are the
  order of \<open>int\<close>. Quantities are Python integers.
\<close>

type_synonym date = int

datatype period = Day | Week | Month | Year

datatype error =
    KeyError | TypeError | InvalidRangeError | MissingTimestampError
  | UnsupportedExportFormatError

text \<open>The part descriptor: the three attributes of a part that the views read.\<close>

record part =
  pk :: int
  name :: string
  IPN :: string

text \<open>One row of the build table, with the columns the query and the loop read.\<close>

record build =
  build_part :: part
  status :: int
  completed :: int
  quantity :: int
  completion_date :: "date option"

text \<open>
  The validated request data (\<^verbatim>\<open>serializer.validated_data\<close>), as \<^verbatim>\<open>get\<close> copies it
  into the fields of \<^verbatim>\<open>self\<close>; the handler adds \<^verbatim>\<open>self.date_range\<close>.
\<close>

record request =
  start_date :: date
  end_date :: date
  period :: period
  order_type :: "string option"
  part_filter :: "part option"
  export_format :: "string option"

record 'k handler = request +
  date_range :: "'k list"

subsection \<open>Python dictionaries\<close>

text \<open>
  A \<^verbatim>\<open>dict\<close> is an association list in insertion order whose keys are distinct:
  \<^verbatim>\<open>d[k] = v\<close> overwrites in place when the key is present and appends otherwise,
  \<^verbatim>\<open>d[k]\<close> raises \<^verbatim>\<open>KeyError\<close> on a missing key, \<^verbatim>\<open>k in d\<close> tests the keys and
  \<^verbatim>\<open>d.get(k, v)\<close> reads with a default.
\<close>

type_synonym ('a, 'b) dict = "('a \<times> 'b) list"

definition wf_dict :: "('a, 'b) dict \<Rightarrow> bool" where
  "wf_dict d = distinct (map fst d)"

fun setitem :: "('a, 'b) dict \<Rightarrow> 'a \<Rightarrow> 'b \<Rightarrow> ('a, 'b) dict" where
  "setitem [] k v = [(k, v)]"
| "setitem ((k', v') # d) k v = (if k' = k then (k', v) # d else (k', v') # setitem d k v)"

definition contains :: "'a \<Rightarrow> ('a, 'b) dict \<Rightarrow> bool" where
  "contains k d = (k \<in> set (map fst d))"

definition getitem :: "('a, 'b) dict \<Rightarrow> 'a \<Rightarrow> error + 'b" where
  "getitem d k = (case map_of d k of None \<Rightarrow> Inl KeyError | Some v \<Rightarrow> Inr v)"

definition get_default :: "('a, 'b) dict \<Rightarrow> 'a \<Rightarrow> 'b \<Rightarrow> 'b" where
  "get_default d k v = (case map_of d k of None \<Rightarrow> v | Some w \<Rightarrow> w)"

text \<open>
  Python's \<^verbatim>\<open>==\<close> on two dictionaries: the same number of items, and every key of the
  left one is a key of the right one with an equal value (\<open>veq\<close> compares the values).
\<close>

definition dict_eq :: "('b \<Rightarrow> 'b \<Rightarrow> bool) \<Rightarrow> ('a, 'b) dict \<Rightarrow> ('a, 'b) dict \<Rightarrow> bool" where
  "dict_eq veq d d' =
     (length d = length d' \<and>
      list_all (\<lambda>(k, v). case map_of d' k of None \<Rightarrow> False | Some v' \<Rightarrow> veq v v') d)"

section \<open>The period calendar\<close>

text \<open>
  Modelled from the spec: \<^verbatim>\<open>helpers.convert_date\<close> is not among the sources. Section 4.1
  of the specification describes it as the map from a timestamp to the key of the period
  instance that contains it, and sections 4.2 and 7 say that a record without a completion
  timestamp makes the aggregation fail with \<^verbatim>\<open>MissingTimestampError\<close>. The calendar
  arithmetic itself is the parameter \<open>bk\<close>; bucket keys are any linearly ordered type.
\<close>

definition convert_date :: "(date \<Rightarrow> period \<Rightarrow> 'k) \<Rightarrow> date option \<Rightarrow> period \<Rightarrow> error + 'k" where
  "convert_date bk d p = (case d of None \<Rightarrow> Inl MissingTimestampError | Some t \<Rightarrow> Inr (bk t p))"

text \<open>
  Modelled from the spec: \<^verbatim>\<open>helpers.construct_date_range\<close> is not among the sources.
  Section 4.1 of the specification: it fails with \<^verbatim>\<open>InvalidRangeError\<close> unless
  \<open>start \<le> end\<close>, and otherwise returns the complete, strictly ascending sequence of the
  keys of the period instances that meet the days from \<open>start\<close> to \<open>end\<close>. The period
  arrives already validated against the enumeration, so no input is an unsupported period.
\<close>

definition construct_date_range ::
  "(date \<Rightarrow> period \<Rightarrow> 'k::linorder) \<Rightarrow> date \<Rightarrow> date \<Rightarrow> period \<Rightarrow> error + 'k list" where
  "construct_date_range bk s e p =
     (if e < s then Inl InvalidRangeError
      else Inr (sort (remdups (map (\<lambda>d. bk d p) [s..e]))))"

section \<open>The aggregation loop\<close>

text \<open>
  The body of the loop of \<^verbatim>\<open>generate_build_order_history\<close> (lines 88 to 102). The state
  is the pair of the dictionaries \<^verbatim>\<open>parts\<close> and \<^verbatim>\<open>history_items\<close>. The inner dictionary
  \<^verbatim>\<open>history_items[part.pk]\<close> is updated in place by the source; here the updated inner
  dictionary is stored back under its key, which leaves its position unchanged.
\<close>

type_synonym 'k aggregate = "(int, ('k, int) dict) dict"

definition loop_body ::
  "(date \<Rightarrow> period \<Rightarrow> 'k) \<Rightarrow> period \<Rightarrow> (int, part) dict \<times> 'k aggregate \<Rightarrow> build
     \<Rightarrow> error + ((int, part) dict \<times> 'k aggregate)" where
  "loop_body bk per st b =
     (let p = build_part b;
          parts = (if \<not> contains (pk p) (fst st) then setitem (fst st) (pk p) p else fst st);
          history_items =
            (if \<not> contains (pk p) (snd st) then setitem (snd st) (pk p) [] else snd st)
      in case convert_date bk (completion_date b) per of
           Inl e \<Rightarrow> Inl e
         | Inr date_key \<Rightarrow>
             (case getitem history_items (pk p) of
                Inl e \<Rightarrow> Inl e
              | Inr entries0 \<Rightarrow>
                  (let entries =
                         (if \<not> contains date_key entries0 then setitem entries0 date_key 0
                          else entries0)
                   in case getitem entries date_key of
                        Inl e \<Rightarrow> Inl e
                      | Inr q \<Rightarrow>
                          Inr (parts,
                               setitem history_items (pk p)
                                 (setitem entries date_key (q + quantity b))))))"

fun build_loop ::
  "(date \<Rightarrow> period \<Rightarrow> 'k) \<Rightarrow> period \<Rightarrow> (int, part) dict \<times> 'k aggregate \<Rightarrow> build list
     \<Rightarrow> error + ((int, part) dict \<times> 'k aggregate)" where
  "build_loop bk per st [] = Inr st"
| "build_loop bk per st (b # bs) =
     (case loop_body bk per st b of Inl e \<Rightarrow> Inl e | Inr st' \<Rightarrow> build_loop bk per st' bs)"

section \<open>The two output encodings\<close>

text \<open>
  The zero-fill loop of \<^verbatim>\<open>format_response\<close> (lines 142 to 144): every key of the date
  range that the sparse entries lack is appended to the history with quantity zero.
\<close>

fun zero_fill :: "('k, int) dict \<Rightarrow> ('k \<times> int) list \<Rightarrow> 'k list \<Rightarrow> ('k \<times> int) list" where
  "zero_fill entries history [] = history"
| "zero_fill entries history (date_key # ks) =
     zero_fill entries
       (if \<not> contains date_key entries then history @ [(date_key, 0)] else history) ks"

text \<open>
  Lines 136 to 146: the items of the entries, the zero fill, and \<^verbatim>\<open>sorted\<close> by the date
  key. Python's \<^verbatim>\<open>sorted\<close> is stable, as \<open>sort_key\<close> is.
\<close>

definition dense_history :: "'k::linorder list \<Rightarrow> ('k, int) dict \<Rightarrow> ('k \<times> int) list" where
  "dense_history dr entries = sort_key fst (zero_fill entries entries dr)"

datatype 'k cell = IntCell int | StrCell string | KeyCell 'k

record 'k dataset =
  headers :: "'k cell list"
  rows :: "'k cell list list"

text \<open>
  What a handler returns: a structured response (the list handed to the response
  serializer, which is outside the sources), a bare Python list, or a file download of
  the data set in the requested format, with its file name (the bytes are those the
  external tabular library produces from the data set and the format).
\<close>

datatype 'k outcome =
    Response "(part \<times> ('k \<times> int) list) list"
  | RawList "(part \<times> ('k \<times> int) list) list"
  | DownloadFile "'k dataset" string string

text \<open>The loop of \<^verbatim>\<open>export_data\<close> (lines 167 to 174) over the items of the aggregate.\<close>

fun export_rows ::
  "'k list \<Rightarrow> (int, part) dict \<Rightarrow> 'k cell list list \<Rightarrow> 'k aggregate \<Rightarrow> error + 'k cell list list" where
  "export_rows dr part_dict acc [] = Inr acc"
| "export_rows dr part_dict acc ((part_id, entries) # rest) =
     (case getitem part_dict part_id of
        Inl e \<Rightarrow> Inl e
      | Inr p \<Rightarrow>
          export_rows dr part_dict
            (acc @ [[IntCell part_id, StrCell (name p), StrCell (IPN p)]
                      @ map (\<lambda>key. IntCell (get_default entries key 0)) dr])
            rest)"

text \<open>
  The tabular library is outside the sources. Of \<^verbatim>\<open>dataset.export(format)\<close> the model
  keeps whether the call returns: a sink says, for a data set and a format identifier,
  whether it accepts them. When it does not, the call raises, and the error leaves
  \<^verbatim>\<open>export_data\<close> as \<^verbatim>\<open>UnsupportedExportFormatError\<close> (sections 4.5 and 7 of the
  specification).
\<close>

type_synonym 'k sink = "'k dataset \<Rightarrow> string \<Rightarrow> bool"

text \<open>
  \<^verbatim>\<open>export_data\<close> (lines 158 to 178): the headers, the rows, then the export of the data
  set by the sink (line 176) and the download with its file name.
\<close>

definition export_data ::
  "'k sink \<Rightarrow> 'k handler \<Rightarrow> string \<Rightarrow> (int, part) dict \<Rightarrow> 'k aggregate
     \<Rightarrow> error + 'k outcome" where
  "export_data sink self fmt part_dict history_items =
     (case export_rows (date_range self) part_dict [] history_items of
        Inl e \<Rightarrow> Inl e
      | Inr rs \<Rightarrow>
          (let ds = \<lparr>headers = [StrCell ''Part ID'', StrCell ''Part Name'', StrCell ''IPN'']
                               @ map KeyCell (date_range self),
                    rows = rs\<rparr>
           in if sink ds fmt then Inr (DownloadFile ds fmt (''order_history.'' @ fmt))
              else Inl UnsupportedExportFormatError))"

text \<open>The loop of \<^verbatim>\<open>format_response\<close> (lines 135 to 152) over the items of the aggregate.\<close>

fun response_loop ::
  "'k::linorder list \<Rightarrow> (int, part) dict \<Rightarrow> (part \<times> ('k \<times> int) list) list \<Rightarrow> 'k aggregate
     \<Rightarrow> error + (part \<times> ('k \<times> int) list) list" where
  "response_loop dr part_dict response [] = Inr response"
| "response_loop dr part_dict response ((part_id, entries) # rest) =
     (let history = dense_history dr entries
      in case getitem part_dict part_id of
           Inl e \<Rightarrow> Inl e
         | Inr p \<Rightarrow> response_loop dr part_dict (response @ [(p, history)]) rest)"

text \<open>
  \<^verbatim>\<open>format_response\<close>: the export branch is taken when \<^verbatim>\<open>self.export_format\<close> is truthy,
  that is, neither \<^verbatim>\<open>None\<close> nor the empty string.
\<close>

definition format_response ::
  "'k sink \<Rightarrow> 'k::linorder handler \<Rightarrow> (int, part) dict \<Rightarrow> 'k aggregate
     \<Rightarrow> error + 'k outcome" where
  "format_response sink self part_dict history_items =
     (case export_format self of
        Some (c # cs) \<Rightarrow> export_data sink self (c # cs) part_dict history_items
      | _ \<Rightarrow>
          (case response_loop (date_range self) part_dict [] history_items of
             Inl e \<Rightarrow> Inl e
           | Inr response \<Rightarrow> Inr (Response response)))"

section \<open>The handler\<close>

text \<open>
  The collaborators outside the sources: the calendar arithmetic behind the helpers, the
  part tree (\<^verbatim>\<open>get_descendants(include_self=True)\<close>, as the keys of the descendants), the
  status codes of \<^verbatim>\<open>BuildStatusGroups.COMPLETE\<close>, the build table, and the sink of
  the tabular library.
\<close>

record 'k env =
  bucket_key :: "date \<Rightarrow> period \<Rightarrow> 'k"
  get_descendants :: "part \<Rightarrow> int list"
  COMPLETE :: "int list"
  all_builds :: "build list"
  export_sink :: "'k sink"

text \<open>The query of \<^verbatim>\<open>generate_build_order_history\<close> (lines 63 to 82).\<close>

definition build_query :: "'k env \<Rightarrow> 'k handler \<Rightarrow> build list" where
  "build_query env self =
     (let builds0 = all_builds env;
          builds1 = (case part_filter self of
                       None \<Rightarrow> builds0
                     | Some p \<Rightarrow>
                         filter (\<lambda>b. pk (build_part b) \<in> set (get_descendants env p)) builds0);
          builds2 = filter (\<lambda>b. status b \<in> set (COMPLETE env) \<and> 0 < completed b) builds1;
          builds3 = filter (\<lambda>b. completion_date b \<noteq> None) builds2
      in filter (\<lambda>b. case completion_date b of
                        None \<Rightarrow> False
                      | Some d \<Rightarrow> start_date self \<le> d \<and> d \<le> end_date self) builds3)"

definition generate_build_order_history ::
  "'k::linorder env \<Rightarrow> 'k handler \<Rightarrow> error + 'k outcome" where
  "generate_build_order_history env self =
     (case build_loop (bucket_key env) (period self) ([], []) (build_query env self) of
        Inl e \<Rightarrow> Inl e
      | Inr (parts, history_items) \<Rightarrow>
          format_response (export_sink env) self parts history_items)"

definition generate_purchase_order_history :: "'k handler \<Rightarrow> error + 'k outcome" where
  "generate_purchase_order_history self = Inr (RawList [])"

definition generate_sales_order_history :: "'k handler \<Rightarrow> error + 'k outcome" where
  "generate_sales_order_history self = Inr (RawList [])"

definition generate_return_order_history :: "'k handler \<Rightarrow> error + 'k outcome" where
  "generate_return_order_history self = Inr (RawList [])"

text \<open>
  \<^verbatim>\<open>get\<close> (lines 23 to 55): the fields of \<^verbatim>\<open>self\<close> are set from the validated data, the
  date range is constructed, and the order type selects the generator; an order type
  that is no key of \<^verbatim>\<open>generators\<close> (\<^verbatim>\<open>None\<close> included) gives \<^verbatim>\<open>Response([])\<close>.
\<close>

definition get :: "'k::linorder env \<Rightarrow> request \<Rightarrow> error + 'k outcome" where
  "get env data =
     (case construct_date_range (bucket_key env) (start_date data) (end_date data) (period data) of
        Inl e \<Rightarrow> Inl e
      | Inr dr \<Rightarrow>
          (let self = \<lparr>start_date = start_date data, end_date = end_date data,
                       period = period data, order_type = order_type data,
                       part_filter = part_filter data, export_format = export_format data,
                       date_range = dr\<rparr>
           in if order_type self = Some ''build'' then generate_build_order_history env self
              else if order_type self = Some ''purchase'' then generate_purchase_order_history self
              else if order_type self = Some ''sales'' then generate_sales_order_history self
              else if order_type self = Some ''return'' then generate_return_order_history self
              else Inr (Response [])))"

section \<open>Derived notions used in the proofs\<close>

text \<open>
  The effect of one loop iteration on \<^verbatim>\<open>history_items\<close> in closed form, the quantity the
  aggregate holds for an entity and a bucket, the representation invariant of the nested
  dictionaries, and the records that fall into one entity's bucket.
\<close>

definition accumulate :: "'k aggregate \<Rightarrow> int \<Rightarrow> 'k \<Rightarrow> int \<Rightarrow> 'k aggregate" where
  "accumulate hi pid key q =
     (let entries = get_default hi pid []
      in setitem hi pid (setitem entries key (get_default entries key 0 + q)))"

definition cell :: "'k aggregate \<Rightarrow> int \<Rightarrow> 'k \<Rightarrow> int option" where
  "cell hi pid key = (case map_of hi pid of None \<Rightarrow> None | Some entries \<Rightarrow> map_of entries key)"

definition wf_aggregate :: "'k aggregate \<Rightarrow> bool" where
  "wf_aggregate hi = (wf_dict hi \<and> list_all (\<lambda>(pid, entries). wf_dict entries) hi)"

definition matching :: "(date \<Rightarrow> period \<Rightarrow> 'k) \<Rightarrow> period \<Rightarrow> int \<Rightarrow> 'k \<Rightarrow> build list \<Rightarrow> build list" where
  "matching bk per pid key bs =
     filter (\<lambda>b. pk (build_part b) = pid \<and>
                 (case completion_date b of None \<Rightarrow> False | Some t \<Rightarrow> bk t per = key)) bs"

text \<open>
  The aggregate of a record list: the loop of lines 85 to 102 run from the two empty
  dictionaries, keeping \<^verbatim>\<open>history_items\<close>.
\<close>

definition aggregate ::
  "(date \<Rightarrow> period \<Rightarrow> 'k) \<Rightarrow> period \<Rightarrow> build list \<Rightarrow> error + 'k aggregate" where
  "aggregate bk per records =
     (case build_loop bk per ([], []) records of Inl e \<Rightarrow> Inl e | Inr st \<Rightarrow> Inr (snd st))"

section \<open>A concrete scenario\<close>

text \<open>
  The scenario of section 8 of the specification, on a calendar of uniform 30-day months
  with day 0 as the first day: two records of part 1 in the first and second month, one
  record of part 2 in the first month, and a date range of three months.
\<close>

definition uniform_calendar :: "date \<Rightarrow> period \<Rightarrow> int" where
  "uniform_calendar d p =
     (case p of Day \<Rightarrow> d | Week \<Rightarrow> d div 7 | Month \<Rightarrow> d div 30 | Year \<Rightarrow> d div 360)"

definition P1 :: part where
  "P1 = \<lparr>pk = 1, name = ''P1'', IPN = ''A-1''\<rparr>"

definition P2 :: part where
  "P2 = \<lparr>pk = 2, name = ''P2'', IPN = ''A-2''\<rparr>"

definition scenario_records :: "build list" where
  "scenario_records =
     [\<lparr>build_part = P1, status = 40, completed = 5, quantity = 5, completion_date = Some 14\<rparr>,
      \<lparr>build_part = P1, status = 40, completed = 3, quantity = 3, completion_date = Some 39\<rparr>,
      \<lparr>build_part = P2, status = 40, completed = 2, quantity = 2, completion_date = Some 19\<rparr>]"

definition scenario_handler :: "int handler" where
  "scenario_handler =
     \<lparr>start_date = 0, end_date = 89, period = Month, order_type = Some ''build'',
      part_filter = None, export_format = None, date_range = [0, 1, 2]\<rparr>"

section \<open>The response formatter on an explicit heap\<close>

text \<open>
  To state that \<^verbatim>\<open>format_response\<close> leaves its arguments alone, the objects it touches
  live in a heap, a list of objects addressed by position: the \<^verbatim>\<open>history_items\<close>
  dictionary (entity key to the address of its entries), an entries dictionary, a list of
  date and quantity items (the \<^verbatim>\<open>history\<close> lists), and the \<^verbatim>\<open>response\<close> list (descriptor
  and the address of the history). An allocation appends a new object; \<^verbatim>\<open>append\<close> on a
  list overwrites the object at the list's address.
\<close>

datatype 'k obj =
    Outer "(int, nat) dict"
  | Entries "('k, int) dict"
  | Items "('k \<times> int) list"
  | Resp "(part \<times> nat) list"

type_synonym 'k heap = "'k obj list"

definition load :: "'k heap \<Rightarrow> nat \<Rightarrow> 'k obj option" where
  "load h a = (if a < length h then Some (h ! a) else None)"

definition alloc :: "'k heap \<Rightarrow> 'k obj \<Rightarrow> nat \<times> 'k heap" where
  "alloc h x = (length h, h @ [x])"

text \<open>
  Lines 142 to 144 on the heap: \<^verbatim>\<open>history.append\<close> writes at the address \<open>ha\<close> of the
  history list, and the membership test reads the entries at \<open>ea\<close>. An address that does
  not hold an object of the expected kind is a \<^verbatim>\<open>TypeError\<close>.
\<close>

fun zero_fill_heap :: "nat \<Rightarrow> nat \<Rightarrow> 'k list \<Rightarrow> 'k heap \<Rightarrow> error + 'k heap" where
  "zero_fill_heap ea ha [] h = Inr h"
| "zero_fill_heap ea ha (date_key # ks) h =
     (case (load h ea, load h ha) of
        (Some (Entries entries), Some (Items history)) \<Rightarrow>
          zero_fill_heap ea ha ks
            (if \<not> contains date_key entries then h[ha := Items (history @ [(date_key, 0)])]
             else h)
      | _ \<Rightarrow> Inl TypeError)"

text \<open>
  Lines 135 to 152 on the heap: the list comprehension allocates the history list,
  \<^verbatim>\<open>sorted\<close> allocates a second list, and \<^verbatim>\<open>response.append\<close> writes at the address
  \<open>ra\<close> of the response list.
\<close>

fun response_loop_heap ::
  "'k::linorder list \<Rightarrow> (int, part) dict \<Rightarrow> nat \<Rightarrow> (int \<times> nat) list \<Rightarrow> 'k heap \<Rightarrow> error + 'k heap" where
  "response_loop_heap dr part_dict ra [] h = Inr h"
| "response_loop_heap dr part_dict ra ((part_id, ea) # rest) h =
     (case load h ea of
        Some (Entries entries) \<Rightarrow>
          (let (ha, h1) = alloc h (Items entries)
           in case zero_fill_heap ea ha dr h1 of
                Inl e \<Rightarrow> Inl e
              | Inr h2 \<Rightarrow>
                  (case load h2 ha of
                     Some (Items history) \<Rightarrow>
                       (let (sa, h3) = alloc h2 (Items (sort_key fst history))
                        in case getitem part_dict part_id of
                             Inl e \<Rightarrow> Inl e
                           | Inr p \<Rightarrow>
                               (case load h3 ra of
                                  Some (Resp response) \<Rightarrow>
                                    response_loop_heap dr part_dict ra rest
                                      (h3[ra := Resp (response @ [(p, sa)])])
                                | _ \<Rightarrow> Inl TypeError))
                   | _ \<Rightarrow> Inl TypeError))
      | _ \<Rightarrow> Inl TypeError)"

text \<open>
  The structured branch of \<^verbatim>\<open>format_response\<close> (lines 133 to 152): \<open>hia\<close> is the address
  of \<^verbatim>\<open>history_items\<close>; the result is the address of the response list and the heap
  after the call.
\<close>

definition format_response_heap ::
  "'k::linorder handler \<Rightarrow> (int, part) dict \<Rightarrow> nat \<Rightarrow> 'k heap \<Rightarrow> error + (nat \<times> 'k heap)" where
  "format_response_heap self part_dict hia h =
     (let (ra, h0) = alloc h (Resp [])
      in case load h0 hia of
           Some (Outer items) \<Rightarrow>
             (case response_loop_heap (date_range self) part_dict ra items h0 of
                Inl e \<Rightarrow> Inl e
              | Inr h' \<Rightarrow> Inr (ra, h'))
         | _ \<Rightarrow> Inl TypeError)"

text \<open>
  Reading a heap back: the items of the list at an address, the response list at an
  address with its history lists, and the statement that the heap holds a given
  aggregate at the address \<open>hia\<close>.
\<close>

definition items_at :: "'k heap \<Rightarrow> nat \<Rightarrow> ('k \<times> int) list" where
  "items_at h a = (case load h a of Some (Items xs) \<Rightarrow> xs | _ \<Rightarrow> [])"

definition response_at :: "'k heap \<Rightarrow> nat \<Rightarrow> (part \<times> ('k \<times> int) list) list" where
  "response_at h ra =
     (case load h ra of Some (Resp rs) \<Rightarrow> map (\<lambda>x. (fst x, items_at h (snd x))) rs | _ \<Rightarrow> [])"

definition heap_holds :: "'k heap \<Rightarrow> nat \<Rightarrow> 'k aggregate \<Rightarrow> bool" where
  "heap_holds h hia hi =
     (case load h hia of
        Some (Outer items) \<Rightarrow>
          map fst items = map fst hi
          \<and> map (\<lambda>x. load h (snd x)) items = map (\<lambda>x. Some (Entries (snd x))) hi
      | _ \<Rightarrow> False)"

text \<open>The aggregate of the scenario, laid out in a heap.\<close>

definition scenario_heap :: "int heap" where
  "scenario_heap = [Outer [(1, 1), (2, 2)], Entries [(0, 5), (1, 3)], Entries [(0, 2)]]"

text \<open>
  The collaborators of the scenario: every part is its own only descendant, status 40 is
  the one complete status, and the sink accepts the formats csv and json.
\<close>

definition scenario_sink :: "int sink" where
  "scenario_sink ds fmt = (fmt \<in> {''csv'', ''json''})"

definition scenario_env :: "int env" where
  "scenario_env =
     \<lparr>bucket_key = uniform_calendar, get_descendants = (\<lambda>p. [pk p]), COMPLETE = [40],
      all_builds = scenario_records, export_sink = scenario_sink\<rparr>"

section \<open>Dictionaries and the loop: basic facts\<close>

lemma map_of_setitem: "map_of (setitem d k v) = (map_of d)(k \<mapsto> v)"
  by (induction d k v rule: setitem.induct) (auto simp: fun_eq_iff)

lemma keys_setitem:
  "map fst (setitem d k v) = (if k \<in> set (map fst d) then map fst d else map fst d @ [k])"
  by (induction d k v rule: setitem.induct) auto

lemma wf_dict_setitem: "wf_dict d \<Longrightarrow> wf_dict (setitem d k v)"
  by (simp add: wf_dict_def keys_setitem)

lemma contains_map_of: "contains k d \<longleftrightarrow> map_of d k \<noteq> None"
  by (simp add: contains_def map_of_eq_None_iff)

lemma sum_setitem:
  "sum_list (map snd (setitem d k v)) + (case map_of d k of None \<Rightarrow> 0 | Some q \<Rightarrow> q)
     = sum_list (map snd d) + (v::int)"
  by (induction d k v rule: setitem.induct) auto

lemma setitem_twice: "setitem (setitem d k v) k w = setitem d k w"
  by (induction d k v rule: setitem.induct) auto

lemma loop_body_None:
  "completion_date b = None \<Longrightarrow> loop_body bk per st b = Inl MissingTimestampError"
  by (simp add: loop_body_def convert_date_def Let_def)

lemma loop_body_Some:
  assumes "completion_date b = Some t"
  shows "loop_body bk per st b =
           Inr (if contains (pk (build_part b)) (fst st) then fst st
                else setitem (fst st) (pk (build_part b)) (build_part b),
                accumulate (snd st) (pk (build_part b)) (bk t per) (quantity b))"
proof (cases "map_of (snd st) (pk (build_part b))")
  case None
  then show ?thesis using assms
    by (simp add: loop_body_def convert_date_def Let_def contains_map_of getitem_def
        map_of_setitem setitem_twice accumulate_def get_default_def)
next
  case (Some e)
  then show ?thesis using assms
    by (cases "map_of e (bk t per)")
       (simp_all add: loop_body_def convert_date_def Let_def contains_map_of getitem_def
        map_of_setitem setitem_twice accumulate_def get_default_def)
qed

lemma set_setitem_subset: "set (setitem d k v) \<subseteq> insert (k, v) (set d)"
  by (induction d k v rule: setitem.induct) auto

lemma keys_accumulate:
  "map fst (accumulate hi pid key q) =
     (if pid \<in> set (map fst hi) then map fst hi else map fst hi @ [pid])"
  by (simp add: accumulate_def Let_def keys_setitem)

lemma wf_aggregate_accumulate:
  assumes "wf_aggregate hi"
  shows "wf_aggregate (accumulate hi pid key q)"
proof -
  let ?e = "get_default hi pid []"
  let ?e' = "setitem ?e key (get_default ?e key 0 + q)"
  have inner: "wf_dict ?e"
  proof (cases "map_of hi pid")
    case None
    then show ?thesis by (simp add: get_default_def wf_dict_def)
  next
    case (Some e)
    then have "(pid, e) \<in> set hi" by (rule map_of_SomeD)
    with assms have "wf_dict e" by (auto simp: wf_aggregate_def list_all_iff)
    with Some show ?thesis by (simp add: get_default_def)
  qed
  have "wf_dict (setitem hi pid ?e')"
    using assms by (simp add: wf_aggregate_def wf_dict_setitem)
  moreover have "\<forall>x \<in> set (setitem hi pid ?e'). wf_dict (snd x)"
  proof
    fix x assume "x \<in> set (setitem hi pid ?e')"
    then have "x = (pid, ?e') \<or> x \<in> set hi"
      using set_setitem_subset [of hi pid ?e'] by auto
    then show "wf_dict (snd x)"
      using inner assms by (auto simp: wf_dict_setitem wf_aggregate_def list_all_iff)
  qed
  ultimately show ?thesis
    by (auto simp: wf_aggregate_def accumulate_def Let_def list_all_iff)
qed

lemma cell_accumulate:
  "cell (accumulate hi pid key q) pid' key' =
     (if pid' = pid \<and> key' = key
      then Some ((case cell hi pid key of None \<Rightarrow> 0 | Some x \<Rightarrow> x) + q)
      else cell hi pid' key')"
  by (auto simp: cell_def accumulate_def Let_def map_of_setitem get_default_def
           split: option.splits)

lemma entries_accumulate_other:
  "pid' \<noteq> pid \<Longrightarrow> map_of (accumulate hi pid key q) pid' = map_of hi pid'"
  by (simp add: accumulate_def Let_def map_of_setitem)

lemma total_accumulate:
  "sum_list (map snd (get_default (accumulate hi pid key q) pid' [])) =
     sum_list (map snd (get_default hi pid' [])) + (if pid' = pid then q else 0)"
proof (cases "pid' = pid")
  case False
  then show ?thesis by (simp add: get_default_def entries_accumulate_other)
next
  case True
  let ?e = "get_default hi pid []"
  have "get_default (accumulate hi pid key q) pid [] = setitem ?e key (get_default ?e key 0 + q)"
    by (simp add: accumulate_def Let_def map_of_setitem get_default_def)
  moreover have "sum_list (map snd (setitem ?e key (get_default ?e key 0 + q))) =
      sum_list (map snd ?e) + q"
    using sum_setitem [of ?e key "get_default ?e key 0 + q"]
    by (simp add: get_default_def split: option.splits)
  ultimately show ?thesis using True by simp
qed

lemma build_loop_ConsE:
  assumes "build_loop bk per st (b # bs) = Inr st'"
  obtains t where "completion_date b = Some t"
    and "build_loop bk per
           (if contains (pk (build_part b)) (fst st) then fst st
            else setitem (fst st) (pk (build_part b)) (build_part b),
            accumulate (snd st) (pk (build_part b)) (bk t per) (quantity b)) bs = Inr st'"
proof (cases "completion_date b")
  case None
  with assms show ?thesis by (simp add: loop_body_None)
next
  case (Some t)
  with assms that show ?thesis by (simp add: loop_body_Some)
qed

lemma build_loop_missing:
  "\<exists>b \<in> set bs. completion_date b = None \<Longrightarrow> build_loop bk per st bs = Inl MissingTimestampError"
proof (induction bs arbitrary: st)
  case Nil
  then show ?case by simp
next
  case (Cons b bs)
  show ?case
  proof (cases "completion_date b")
    case None
    then show ?thesis by (simp add: loop_body_None)
  next
    case (Some t)
    with Cons.prems have "\<exists>b \<in> set bs. completion_date b = None" by auto
    then show ?thesis using Some Cons.IH by (simp add: loop_body_Some)
  qed
qed

lemma build_loop_total:
  "\<forall>b \<in> set bs. completion_date b \<noteq> None \<Longrightarrow> \<exists>st'. build_loop bk per st bs = Inr st'"
proof (induction bs arbitrary: st)
  case Nil
  then show ?case by simp
next
  case (Cons b bs)
  then obtain t where "completion_date b = Some t" by auto
  then show ?case using Cons by (simp add: loop_body_Some)
qed

lemma build_loop_keys_agree:
  "build_loop bk per st bs = Inr st' \<Longrightarrow> map fst (fst st) = map fst (snd st)
     \<Longrightarrow> map fst (fst st') = map fst (snd st')"
proof (induction bs arbitrary: st)
  case Nil
  then show ?case by simp
next
  case (Cons b bs)
  from Cons.prems(1) show ?case
  proof (rule build_loop_ConsE)
    fix t
    assume "build_loop bk per
           (if contains (pk (build_part b)) (fst st) then fst st
            else setitem (fst st) (pk (build_part b)) (build_part b),
            accumulate (snd st) (pk (build_part b)) (bk t per) (quantity b)) bs = Inr st'"
    then show ?thesis
      by (rule Cons.IH) (use Cons.prems(2) in \<open>simp add: keys_accumulate keys_setitem contains_def\<close>)
  qed
qed

lemma build_loop_parts_pk:
  "build_loop bk per st bs = Inr st' \<Longrightarrow> \<forall>x \<in> set (fst st). pk (snd x) = fst x
     \<Longrightarrow> \<forall>x \<in> set (fst st'). pk (snd x) = fst x"
proof (induction bs arbitrary: st)
  case Nil
  then show ?case by simp
next
  case (Cons b bs)
  from Cons.prems(1) show ?case
  proof (rule build_loop_ConsE)
    fix t
    assume "build_loop bk per
           (if contains (pk (build_part b)) (fst st) then fst st
            else setitem (fst st) (pk (build_part b)) (build_part b),
            accumulate (snd st) (pk (build_part b)) (bk t per) (quantity b)) bs = Inr st'"
    then show ?thesis
      by (rule Cons.IH)
         (use Cons.prems(2) set_setitem_subset [of "fst st" "pk (build_part b)" "build_part b"]
          in auto)
  qed
qed

lemma build_loop_wf:
  "build_loop bk per st bs = Inr st' \<Longrightarrow> wf_aggregate (snd st) \<Longrightarrow> wf_aggregate (snd st')"
proof (induction bs arbitrary: st)
  case Nil
  then show ?case by simp
next
  case (Cons b bs)
  from Cons.prems(1) show ?case
  proof (rule build_loop_ConsE)
    fix t
    assume "build_loop bk per
           (if contains (pk (build_part b)) (fst st) then fst st
            else setitem (fst st) (pk (build_part b)) (build_part b),
            accumulate (snd st) (pk (build_part b)) (bk t per) (quantity b)) bs = Inr st'"
    then show ?thesis
      by (rule Cons.IH) (use Cons.prems(2) in \<open>simp add: wf_aggregate_accumulate\<close>)
  qed
qed

lemma build_loop_keys:
  "build_loop bk per st bs = Inr st'
     \<Longrightarrow> set (map fst (snd st')) = set (map fst (snd st)) \<union> (\<lambda>b. pk (build_part b)) ` set bs"
proof (induction bs arbitrary: st)
  case Nil
  then show ?case by simp
next
  case (Cons b bs)
  from Cons.prems(1) show ?case
  proof (rule build_loop_ConsE)
    fix t
    assume "build_loop bk per
           (if contains (pk (build_part b)) (fst st) then fst st
            else setitem (fst st) (pk (build_part b)) (build_part b),
            accumulate (snd st) (pk (build_part b)) (bk t per) (quantity b)) bs = Inr st'"
    from Cons.IH [OF this] show ?thesis
      by (auto simp: keys_accumulate split: if_splits)
  qed
qed

lemma build_loop_total_quantity:
  "build_loop bk per st bs = Inr st'
     \<Longrightarrow> sum_list (map snd (get_default (snd st') pid [])) =
         sum_list (map snd (get_default (snd st) pid []))
           + sum_list (map quantity (filter (\<lambda>b. pk (build_part b) = pid) bs))"
proof (induction bs arbitrary: st)
  case Nil
  then show ?case by simp
next
  case (Cons b bs)
  from Cons.prems(1) show ?case
  proof (rule build_loop_ConsE)
    fix t
    assume "build_loop bk per
           (if contains (pk (build_part b)) (fst st) then fst st
            else setitem (fst st) (pk (build_part b)) (build_part b),
            accumulate (snd st) (pk (build_part b)) (bk t per) (quantity b)) bs = Inr st'"
    from Cons.IH [OF this] show ?thesis
      by (auto simp: total_accumulate)
  qed
qed

lemma build_loop_cell:
  "build_loop bk per st bs = Inr st'
     \<Longrightarrow> cell (snd st') pid key =
         (if matching bk per pid key bs = [] then cell (snd st) pid key
          else Some ((case cell (snd st) pid key of None \<Rightarrow> 0 | Some x \<Rightarrow> x)
                       + sum_list (map quantity (matching bk per pid key bs))))"
proof (induction bs arbitrary: st)
  case Nil
  then show ?case by (simp add: matching_def)
next
  case (Cons b bs)
  from Cons.prems(1) show ?case
  proof (rule build_loop_ConsE)
    fix t
    assume t: "completion_date b = Some t"
    assume "build_loop bk per
           (if contains (pk (build_part b)) (fst st) then fst st
            else setitem (fst st) (pk (build_part b)) (build_part b),
            accumulate (snd st) (pk (build_part b)) (bk t per) (quantity b)) bs = Inr st'"
    from Cons.IH [OF this] t show ?thesis
      by (auto simp: cell_accumulate matching_def split: option.splits)
  qed
qed

lemma zero_fill_eq:
  "zero_fill entries history ks =
     history @ map (\<lambda>k. (k, 0)) (filter (\<lambda>k. \<not> contains k entries) ks)"
  by (induction entries history ks rule: zero_fill.induct) auto

lemma mset_dense_history:
  "mset (dense_history dr entries) =
     mset entries + mset (map (\<lambda>k. (k, 0)) (filter (\<lambda>k. \<not> contains k entries) dr))"
  by (simp add: dense_history_def zero_fill_eq)

lemma sum_dense_history:
  "sum_list (map snd (dense_history dr entries)) = sum_list (map snd entries)"
proof -
  let ?fill = "filter (\<lambda>k. \<not> contains k entries) dr"
  have "mset (map snd (dense_history dr entries))
      = mset (map snd entries) + mset (map (\<lambda>k. 0) ?fill)"
    unfolding mset_map mset_dense_history by (simp add: multiset.map_comp comp_def)
  then have "sum_mset (mset (map snd (dense_history dr entries)))
      = sum_mset (mset (map snd entries)) + sum_mset (mset (map (\<lambda>k. 0::int) ?fill))"
    by simp
  then show ?thesis
    unfolding sum_mset_sum_list by simp
qed

lemma dense_history_keys_canonical:
  assumes "wf_dict entries" and "set (map fst entries) \<subseteq> set dr" and "sorted_wrt (<) dr"
  shows "map fst (dense_history dr entries) = dr"
proof -
  let ?fill = "filter (\<lambda>k. \<not> contains k entries) dr"
  let ?ks = "map fst entries @ ?fill"
  from assms(3) have dr: "sorted dr" "distinct dr"
    by (simp_all add: strict_sorted_iff)
  have ks: "mset (map fst (dense_history dr entries)) = mset ?ks"
    unfolding mset_map mset_dense_history by (simp add: multiset.map_comp comp_def)
  have "distinct ?ks"
    using assms(1) dr(2) by (auto simp: wf_dict_def contains_def)
  with ks have "distinct (map fst (dense_history dr entries))"
    by (metis mset_eq_imp_distinct_iff)
  moreover have "set ?ks = set dr"
    using assms(2) by (auto simp: contains_def)
  with ks have "set (map fst (dense_history dr entries)) = set dr"
    by (metis mset_eq_setD)
  moreover have "sorted (map fst (dense_history dr entries))"
    by (simp add: dense_history_def)
  ultimately show ?thesis
    using dr by (metis sorted_distinct_set_unique)
qed

lemma key_present: "k \<in> set (map fst d) \<Longrightarrow> \<exists>v. map_of d k = Some v"
  by (cases "map_of d k") (auto simp: map_of_eq_None_iff)




lemma response_loop_closed:
  "set (map fst hi) \<subseteq> set (map fst pd) \<Longrightarrow>
     response_loop dr pd acc hi =
       Inr (acc @ map (\<lambda>x. (the (map_of pd (fst x)), dense_history dr (snd x))) hi)"
proof (induction hi arbitrary: acc)
  case Nil
  then show ?case by simp
next
  case (Cons x hi)
  obtain pid entries where x: "x = (pid, entries)" by (cases x)
  with Cons.prems obtain p where p: "map_of pd pid = Some p"
    using key_present [of pid pd] by auto
  from Cons.prems have "set (map fst hi) \<subseteq> set (map fst pd)" by simp
  from Cons.IH [OF this] show ?case
    by (simp add: x p getitem_def)
qed

lemma response_loop_Inr_keys:
  "response_loop dr pd acc hi = Inr r \<Longrightarrow> set (map fst hi) \<subseteq> set (map fst pd)"
proof (induction hi arbitrary: acc)
  case Nil
  then show ?case by simp
next
  case (Cons x hi)
  obtain pid entries where x: "x = (pid, entries)" by (cases x)
  show ?case
  proof (cases "map_of pd pid")
    case None
    with Cons.prems x show ?thesis by (simp add: getitem_def)
  next
    case (Some p)
    then have "pid \<in> set (map fst pd)" by (metis map_of_eq_None_iff option.distinct(1) set_map)
    moreover from Cons.prems x Some
    have "response_loop dr pd (acc @ [(p, dense_history dr entries)]) hi = Inr r"
      by (simp add: getitem_def)
    then have "set (map fst hi) \<subseteq> set (map fst pd)" by (rule Cons.IH)
    ultimately show ?thesis using x by simp
  qed
qed

lemma export_rows_closed:
  "set (map fst hi) \<subseteq> set (map fst pd) \<Longrightarrow>
     export_rows dr pd acc hi =
       Inr (acc @ map (\<lambda>x. [IntCell (fst x), StrCell (name (the (map_of pd (fst x)))),
                               StrCell (IPN (the (map_of pd (fst x))))]
                              @ map (\<lambda>key. IntCell (get_default (snd x) key 0)) dr) hi)"
proof (induction hi arbitrary: acc)
  case Nil
  then show ?case by simp
next
  case (Cons x hi)
  obtain pid entries where x: "x = (pid, entries)" by (cases x)
  with Cons.prems obtain p where p: "map_of pd pid = Some p"
    using key_present [of pid pd] by auto
  from Cons.prems have "set (map fst hi) \<subseteq> set (map fst pd)" by simp
  from Cons.IH [OF this] show ?case
    by (simp add: x p getitem_def)
qed


lemma format_response_Response:
  assumes "format_response sink self pd hi = Inr (Response response)"
  shows "response = map (\<lambda>x. (the (map_of pd (fst x)), dense_history (date_range self) (snd x))) hi"
proof -
  from assms have r: "response_loop (date_range self) pd [] hi = Inr response"
    by (auto simp: format_response_def export_data_def Let_def
        split: option.splits list.splits sum.splits if_splits)
  then have "set (map fst hi) \<subseteq> set (map fst pd)" by (rule response_loop_Inr_keys)
  from response_loop_closed [OF this, of "date_range self" "[]"] r show ?thesis by simp
qed


section \<open>The scenario, evaluated\<close>

lemma scenario_loop:
  "build_loop uniform_calendar Month ([], []) scenario_records =
     Inr ([(1, P1), (2, P2)], [(1, [(0, 5), (1, 3)]), (2, [(0, 2)])])"
  by (simp add: scenario_records_def loop_body_def convert_date_def contains_def getitem_def
      uniform_calendar_def P1_def P2_def)

lemma scenario_response:
  "format_response scenario_sink scenario_handler [(1, P1), (2, P2)] [(1, [(0, 5), (1, 3)]), (2, [(0, 2)])] =
     Inr (Response [(P1, [(0, 5), (1, 3), (2, 0)]), (P2, [(0, 2), (1, 0), (2, 0)])])"
  by (simp add: format_response_def scenario_handler_def dense_history_def contains_def
      getitem_def)


lemma dense_history_keys:
  assumes "wf_dict entries" and "set (map fst entries) \<subseteq> set dr" and "distinct dr"
  shows "mset (map fst (dense_history dr entries)) = mset dr"
    and "sorted_wrt (<) (map fst (dense_history dr entries))"
proof -
  let ?fill = "filter (\<lambda>k. \<not> contains k entries) dr"
  let ?ks = "map fst entries @ ?fill"
  have ks: "mset (map fst (dense_history dr entries)) = mset ?ks"
    unfolding mset_map mset_dense_history by (simp add: multiset.map_comp comp_def)
  have d: "distinct ?ks"
    using assms(1,3) by (auto simp: wf_dict_def contains_def)
  have "set ?ks = set dr"
    using assms(2) by (auto simp: contains_def)
  with d assms(3) have "mset ?ks = mset dr"
    by (metis set_eq_iff_mset_eq_distinct)
  with ks show m: "mset (map fst (dense_history dr entries)) = mset dr" by simp
  from m assms(3) have "distinct (map fst (dense_history dr entries))"
    by (metis mset_eq_imp_distinct_iff)
  moreover have "sorted (map fst (dense_history dr entries))"
    by (simp add: dense_history_def)
  ultimately show "sorted_wrt (<) (map fst (dense_history dr entries))"
    by (simp add: strict_sorted_iff)
qed

section \<open>The descriptor lookups cannot fail\<close>

text \<open>
  The export fails in two ways only: at a descriptor lookup, or at the sink, whose
  rejection of the data set and the format leaves \<^verbatim>\<open>export_data\<close> as an error.
\<close>

lemma export_data_rejected:
  assumes "export_rows (date_range self) part_dict [] history_items = Inr rs"
    and "\<not> sink \<lparr>headers = [StrCell ''Part ID'', StrCell ''Part Name'', StrCell ''IPN'']
                               @ map KeyCell (date_range self),
                    rows = rs\<rparr> fmt"
  shows "export_data sink self fmt part_dict history_items = Inl UnsupportedExportFormatError"
  using assms by (simp add: export_data_def)

lemma scenario_export_rejected:
  "export_data scenario_sink scenario_handler ''dbf'' [(1, P1), (2, P2)]
     [(1, [(0, 5), (1, 3)]), (2, [(0, 2)])] = Inl UnsupportedExportFormatError"
  by (simp add: export_data_def scenario_handler_def scenario_sink_def get_default_def
      getitem_def P1_def P2_def)

text \<open>
  C9: every key of the \<^verbatim>\<open>history_items\<close> dictionary that the aggregation loop builds is
  a key of the \<^verbatim>\<open>parts\<close> dictionary built by the same loop. So the loops of
  \<^verbatim>\<open>format_response\<close> and \<^verbatim>\<open>export_data\<close>, whose only failure is the
  \<^verbatim>\<open>part_dict[part_id]\<close> lookup, return on the dictionaries of the loop for every date
  range, and neither \<^verbatim>\<open>format_response\<close> nor \<^verbatim>\<open>export_data\<close> ends in \<^verbatim>\<open>KeyError\<close>,
  whatever the handler's fields, the format and the sink are. (The export can still fail
  at the sink.)
\<close>

theorem history_items_keys_in_parts:
  assumes "build_loop bk per ([], []) records = Inr (parts, history_items)"
  shows "set (map fst history_items) \<subseteq> set (map fst parts)
       \<and> \<not> isl (response_loop dr parts [] history_items)
       \<and> \<not> isl (export_rows dr parts [] history_items)
       \<and> format_response sink self parts history_items \<noteq> Inl KeyError
       \<and> export_data sink self fmt parts history_items \<noteq> Inl KeyError"
proof -
  from build_loop_keys_agree [OF assms]
  have keys: "map fst parts = map fst history_items" by simp
  then have sub: "set (map fst history_items) \<subseteq> set (map fst parts)" by simp
  have r: "\<not> isl (response_loop dr' parts [] history_items)" for dr' :: "'a list"
    by (simp add: response_loop_closed [OF sub])
  have x: "\<not> isl (export_rows dr' parts [] history_items)" for dr' :: "'a list"
    by (simp add: export_rows_closed [OF sub])
  have e: "export_data sink self' fmt' parts history_items \<noteq> Inl KeyError"
    for self' :: "'a handler" and fmt'
    by (simp add: export_data_def Let_def export_rows_closed [OF sub])
  have "format_response sink self parts history_items \<noteq> Inl KeyError"
    using e by (simp add: format_response_def response_loop_closed [OF sub]
        split: option.splits list.splits)
  with sub r x e show ?thesis by simp
qed

text \<open>
  The scenario as an instance of C9, with a format that the sink of the scenario rejects:
  the export fails, and not with \<^verbatim>\<open>KeyError\<close>.
\<close>

theorem history_items_keys_in_parts_witness:
  "build_loop uniform_calendar Month ([], []) scenario_records =
     Inr ([(1, P1), (2, P2)], [(1, [(0, 5), (1, 3)]), (2, [(0, 2)])])
   \<and> set (map fst [(1::int, [(0::int, 5::int), (1, 3)]), (2, [(0, 2)])])
       \<subseteq> set (map fst [(1, P1), (2, P2)])
   \<and> \<not> isl (response_loop [0, 1, 2] [(1, P1), (2, P2)] []
              [(1::int, [(0::int, 5::int), (1, 3)]), (2, [(0, 2)])])
   \<and> \<not> isl (export_rows [0, 1, 2] [(1, P1), (2, P2)] []
              [(1::int, [(0::int, 5::int), (1, 3)]), (2, [(0, 2)])])
   \<and> format_response scenario_sink scenario_handler [(1, P1), (2, P2)]
        [(1, [(0, 5), (1, 3)]), (2, [(0, 2)])] \<noteq> Inl KeyError
   \<and> export_data scenario_sink scenario_handler ''dbf'' [(1, P1), (2, P2)]
        [(1, [(0, 5), (1, 3)]), (2, [(0, 2)])] = Inl UnsupportedExportFormatError
   \<and> export_data scenario_sink scenario_handler ''dbf'' [(1, P1), (2, P2)]
        [(1, [(0, 5), (1, 3)]), (2, [(0, 2)])] \<noteq> Inl KeyError"
  using history_items_keys_in_parts
          [OF scenario_loop, of "[0, 1, 2]" scenario_sink scenario_handler "''dbf''"]
    scenario_loop scenario_export_rejected
  by simp

section \<open>Density of the structured history\<close>

text \<open>
  C1: on the structured-response path, for the entity at any position \<open>j\<close> of the
  aggregate whose sparse bucket keys all belong to the canonical bucket sequence
  \<^verbatim>\<open>self.date_range\<close>, the history of that entity has exactly one entry for each key of the
  sequence, as many entries as the sequence has keys, and its entries ascend strictly by
  bucket key; when the sequence itself is ascending, the keys of the history are the
  sequence, in its order. The canonical bucket sequence lists each bucket once (section
  4.1 of the specification calls it strictly ascending), and the keys of a dictionary
  are distinct.
\<close>

theorem dense_history_density:
  assumes "format_response sink self part_dict history_items = Inr (Response response)"
    and "j < length history_items"
    and "wf_dict (snd (history_items ! j))"
    and "set (map fst (snd (history_items ! j))) \<subseteq> set (date_range self)"
    and "distinct (date_range self)"
  shows "length response = length history_items
       \<and> mset (map fst (snd (response ! j))) = mset (date_range self)
       \<and> length (snd (response ! j)) = length (date_range self)
       \<and> sorted_wrt (<) (map fst (snd (response ! j)))
       \<and> (sorted (date_range self) \<longrightarrow> map fst (snd (response ! j)) = date_range self)"
proof -
  let ?h = "dense_history (date_range self) (snd (history_items ! j))"
  from format_response_Response [OF assms(1)] assms(2)
  have len: "length response = length history_items" and h: "snd (response ! j) = ?h"
    by simp_all
  from dense_history_keys [OF assms(3,4,5)]
  have m: "mset (map fst ?h) = mset (date_range self)" and s: "sorted_wrt (<) (map fst ?h)"
    by simp_all
  from m have l: "length ?h = length (date_range self)"
    by (metis length_map size_mset)
  have "map fst ?h = date_range self" if "sorted (date_range self)"
  proof -
    from s have "sorted (map fst ?h)" "distinct (map fst ?h)"
      by (simp_all add: strict_sorted_iff)
    moreover from m have "set (map fst ?h) = set (date_range self)"
      by (metis mset_eq_setD)
    ultimately show ?thesis
      using that assms(5) by (metis sorted_distinct_set_unique)
  qed
  with len h m s l show ?thesis by simp
qed

text \<open>The second entity of the scenario as an instance of C1.\<close>

theorem dense_history_density_witness:
  "format_response scenario_sink scenario_handler [(1, P1), (2, P2)] [(1, [(0, 5), (1, 3)]), (2, [(0, 2)])] =
     Inr (Response [(P1, [(0, 5), (1, 3), (2, 0)]), (P2, [(0, 2), (1, 0), (2, 0)])])
   \<and> (1::nat) < length [(1::int, [(0::int, 5::int), (1, 3)]), (2, [(0, 2)])]
   \<and> wf_dict [(0::int, 2::int)]
   \<and> set (map fst [(0::int, 2::int)]) \<subseteq> set (date_range scenario_handler)
   \<and> distinct (date_range scenario_handler)
   \<and> sorted (date_range scenario_handler)
   \<and> map fst (snd ([(P1, [(0::int, 5::int), (1, 3), (2, 0)]), (P2, [(0, 2), (1, 0), (2, 0)])] ! 1))
       = date_range scenario_handler
   \<and> length (snd ([(P1, [(0::int, 5::int), (1, 3), (2, 0)]), (P2, [(0, 2), (1, 0), (2, 0)])] ! 1))
       = length (date_range scenario_handler)"
proof -
  have a: "(1::nat) < length [(1::int, [(0::int, 5::int), (1, 3)]), (2, [(0, 2)])]" by simp
  have b: "wf_dict (snd ([(1::int, [(0::int, 5::int), (1, 3)]), (2, [(0, 2)])] ! 1))"
    by (simp add: wf_dict_def)
  have c: "set (map fst (snd ([(1::int, [(0::int, 5::int), (1, 3)]), (2, [(0, 2)])] ! 1)))
             \<subseteq> set (date_range scenario_handler)"
    by (simp add: scenario_handler_def)
  have d: "distinct (date_range scenario_handler)" by (simp add: scenario_handler_def)
  have e: "sorted (date_range scenario_handler)" by (simp add: scenario_handler_def)
  from dense_history_density [OF scenario_response a b c d] e scenario_response
  show ?thesis by (simp add: wf_dict_def scenario_handler_def)
qed

section \<open>The export and the structured response agree\<close>



section \<open>Zero fill keeps the total\<close>

text \<open>
  C4: for the entity at any position \<open>j\<close> of the aggregate that the loop builds from the
  records, the quantities of its dense history sum to the quantities of all the records
  of that entity; the dense history consists of the sparse entries, none dropped, and of
  entries of quantity zero for the missing keys of the date range.
\<close>

theorem zero_fill_preserves_total:
  assumes "build_loop bk per ([], []) records = Inr (parts, history_items)"
    and "format_response sink self parts history_items = Inr (Response response)"
    and "j < length history_items"
  shows "length response = length history_items
       \<and> pk (fst (response ! j)) = fst (history_items ! j)
       \<and> sum_list (map snd (snd (response ! j)))
           = sum_list (map quantity
               (filter (\<lambda>b. pk (build_part b) = fst (history_items ! j)) records))
       \<and> mset (snd (response ! j))
           = mset (snd (history_items ! j))
             + mset (map (\<lambda>k. (k, 0))
                 (filter (\<lambda>k. \<not> contains k (snd (history_items ! j))) (date_range self)))"
proof -
  let ?pid = "fst (history_items ! j)"
  let ?e = "snd (history_items ! j)"
  from format_response_Response [OF assms(2)] assms(3)
  have len: "length response = length history_items"
    and p: "fst (response ! j) = the (map_of parts ?pid)"
    and h: "snd (response ! j) = dense_history (date_range self) ?e"
    by simp_all
  from build_loop_wf [OF assms(1)] have wf: "wf_dict history_items"
    by (simp add: wf_aggregate_def wf_dict_def)
  from assms(3) have "history_items ! j \<in> set history_items"
    by (rule nth_mem)
  then have mem: "(?pid, ?e) \<in> set history_items" by simp
  from wf mem have e: "map_of history_items ?pid = Some ?e"
    unfolding wf_dict_def by (rule map_of_is_SomeI)
  from build_loop_total_quantity [OF assms(1), of ?pid] e
  have total: "sum_list (map snd ?e)
      = sum_list (map quantity (filter (\<lambda>b. pk (build_part b) = ?pid) records))"
    by (simp add: get_default_def)
  from build_loop_keys_agree [OF assms(1)]
  have keys: "map fst parts = map fst history_items" by simp
  from mem have "?pid \<in> set (map fst history_items)" by (simp add: rev_image_eqI)
  with keys have "?pid \<in> set (map fst parts)" by simp
  then have "\<exists>v. map_of parts ?pid = Some v" by (rule key_present)
  then obtain d where d: "map_of parts ?pid = Some d" ..
  then have dmem: "(?pid, d) \<in> set parts" by (rule map_of_SomeD)
  have "\<forall>x \<in> set (fst (parts, history_items)). pk (snd x) = fst x"
    by (rule build_loop_parts_pk [OF assms(1)]) simp
  with dmem have "pk d = ?pid" by auto
  with p d have "pk (fst (response ! j)) = ?pid" by simp
  with len h total show ?thesis
    by (simp add: sum_dense_history mset_dense_history)
qed

text \<open>The first entity of the scenario as an instance of C4: 5 + 3 = 8.\<close>

theorem zero_fill_preserves_total_witness:
  "build_loop uniform_calendar Month ([], []) scenario_records =
     Inr ([(1, P1), (2, P2)], [(1, [(0, 5), (1, 3)]), (2, [(0, 2)])])
   \<and> format_response scenario_sink scenario_handler [(1, P1), (2, P2)] [(1, [(0, 5), (1, 3)]), (2, [(0, 2)])] =
     Inr (Response [(P1, [(0, 5), (1, 3), (2, 0)]), (P2, [(0, 2), (1, 0), (2, 0)])])
   \<and> sum_list (map snd (snd ([(P1, [(0::int, 5::int), (1, 3), (2, 0)]), (P2, [(0, 2), (1, 0), (2, 0)])] ! 0)))
       = sum_list (map quantity (filter (\<lambda>b. pk (build_part b) = 1) scenario_records))
   \<and> sum_list (map quantity (filter (\<lambda>b. pk (build_part b) = 1) scenario_records)) = 8"
proof -
  have a: "(0::nat) < length [(1::int, [(0::int, 5::int), (1, 3)]), (2, [(0, 2)])]" by simp
  from zero_fill_preserves_total [OF scenario_loop scenario_response a]
    scenario_loop scenario_response
  show ?thesis by (simp add: scenario_records_def P1_def P2_def)
qed

section \<open>Permutation invariance of the aggregation\<close>

lemma dict_eq_relI:
  assumes "wf_dict d" and "wf_dict d'"
    and keys: "set (map fst d) = set (map fst d')"
    and vals: "\<And>k v v'. map_of d k = Some v \<Longrightarrow> map_of d' k = Some v' \<Longrightarrow> veq v v'"
  shows "dict_eq veq d d'"
proof -
  have "card (set (map fst d)) = length (map fst d)"
    using assms(1) unfolding wf_dict_def by (rule distinct_card)
  moreover have "card (set (map fst d')) = length (map fst d')"
    using assms(2) unfolding wf_dict_def by (rule distinct_card)
  ultimately have "length (map fst d) = length (map fst d')"
    using keys by simp
  then have len: "length d = length d'" by simp
  have "case map_of d' k of None \<Rightarrow> False | Some v' \<Rightarrow> veq v v'" if "(k, v) \<in> set d" for k v
  proof -
    from assms(1) that have dv: "map_of d k = Some v"
      unfolding wf_dict_def by (rule map_of_is_SomeI)
    from that have "k \<in> set (map fst d)" by (simp add: rev_image_eqI)
    with keys have "k \<in> set (map fst d')" by simp
    then have "\<exists>v'. map_of d' k = Some v'" by (rule key_present)
    then obtain v' where dv': "map_of d' k = Some v'" ..
    with dv have "veq v v'" by (rule vals)
    with dv' show ?thesis by simp
  qed
  then have "list_all (\<lambda>(k, v). case map_of d' k of None \<Rightarrow> False | Some v' \<Rightarrow> veq v v') d"
    by (auto simp: list_all_iff)
  with len show ?thesis by (simp add: dict_eq_def)
qed

lemma dict_eq_same_map:
  assumes "wf_dict d" and "wf_dict d'" and "\<And>k. map_of d k = map_of d' k"
  shows "dict_eq (=) d d'"
proof (rule dict_eq_relI [OF assms(1,2)])
  have "k \<in> set (map fst d) \<longleftrightarrow> k \<in> set (map fst d')" for k
    using assms(3) [of k] map_of_eq_None_iff [of d k] map_of_eq_None_iff [of d' k] by simp
  then show "set (map fst d) = set (map fst d')" by blast
next
  fix k v v'
  assume "map_of d k = Some v" "map_of d' k = Some v'"
  with assms(3) [of k] show "v = v'" by simp
qed

lemma matching_mset:
  assumes "mset ys = mset xs"
  shows "(matching bk per pid key ys = []) = (matching bk per pid key xs = [])"
    and "sum_list (map quantity (matching bk per pid key ys))
           = sum_list (map quantity (matching bk per pid key xs))"
proof -
  have m: "mset (matching bk per pid key ys) = mset (matching bk per pid key xs)"
    using assms by (simp add: matching_def)
  then show "(matching bk per pid key ys = []) = (matching bk per pid key xs = [])"
    by (metis mset_zero_iff)
  from m have "mset (map quantity (matching bk per pid key ys))
      = mset (map quantity (matching bk per pid key xs))"
    by simp
  then show "sum_list (map quantity (matching bk per pid key ys))
           = sum_list (map quantity (matching bk per pid key xs))"
    by (metis sum_mset_sum_list)
qed

lemma aggregate_Inr:
  assumes "aggregate bk per records = Inr hi"
  shows "wf_aggregate hi"
    and "set (map fst hi) = (\<lambda>b. pk (build_part b)) ` set records"
    and "cell hi pid key =
           (if matching bk per pid key records = [] then None
            else Some (sum_list (map quantity (matching bk per pid key records))))"
proof -
  from assms obtain st where st: "build_loop bk per ([], []) records = Inr st" and hi: "hi = snd st"
    by (auto simp: aggregate_def split: sum.splits)
  from build_loop_wf [OF st] hi show "wf_aggregate hi"
    by (simp add: wf_aggregate_def wf_dict_def)
  from build_loop_keys [OF st] hi
  show "set (map fst hi) = (\<lambda>b. pk (build_part b)) ` set records" by simp
  from build_loop_cell [OF st, of pid key] hi
  show "cell hi pid key =
           (if matching bk per pid key records = [] then None
            else Some (sum_list (map quantity (matching bk per pid key records))))"
    by (simp add: cell_def)
qed

lemma aggregate_cases:
  "(\<exists>b \<in> set records. completion_date b = None) \<and> aggregate bk per records = Inl MissingTimestampError
   \<or> (\<forall>b \<in> set records. completion_date b \<noteq> None) \<and> (\<exists>hi. aggregate bk per records = Inr hi)"
proof (cases "\<exists>b \<in> set records. completion_date b = None")
  case True
  then show ?thesis by (simp add: aggregate_def build_loop_missing)
next
  case False
  then have "\<forall>b \<in> set records. completion_date b \<noteq> None" by simp
  from build_loop_total [OF this, of bk per "([], [])"] False show ?thesis
    by (auto simp: aggregate_def)
qed

lemma wf_aggregate_entries:
  assumes "wf_aggregate hi" and "map_of hi pid = Some entries"
  shows "wf_dict entries"
proof -
  from assms(2) have "(pid, entries) \<in> set hi" by (rule map_of_SomeD)
  with assms(1) show ?thesis by (auto simp: wf_aggregate_def list_all_iff)
qed

text \<open>
  C3: the aggregation loop run on a permutation of a record list gives an aggregate that
  is equal, as a dictionary of dictionaries (Python's \<^verbatim>\<open>==\<close>, which ignores the order of
  insertion), to the aggregate of the original list; when the loop fails on one list it
  fails on the other with the same error.
\<close>

theorem aggregate_permutation_invariant:
  assumes "mset records' = mset records"
  shows "rel_sum (=) (dict_eq (dict_eq (=))) (aggregate bk per records) (aggregate bk per records')"
proof -
  from assms have sets: "set records' = set records" by (rule mset_eq_setD)
  show ?thesis
  proof (cases "\<exists>b \<in> set records. completion_date b = None")
    case True
    with sets show ?thesis by (simp add: aggregate_def build_loop_missing)
  next
    case False
    with aggregate_cases [of records bk per] obtain hi
      where hi: "aggregate bk per records = Inr hi" by auto
    from False sets aggregate_cases [of records' bk per] obtain hi'
      where hi': "aggregate bk per records' = Inr hi'" by auto
    have cells: "cell hi pid key = cell hi' pid key" for pid key
      by (simp add: aggregate_Inr(3) [OF hi] aggregate_Inr(3) [OF hi'] matching_mset [OF assms])
    have "dict_eq (dict_eq (=)) hi hi'"
    proof (rule dict_eq_relI)
      show "wf_dict hi" using aggregate_Inr(1) [OF hi] by (simp add: wf_aggregate_def)
      show "wf_dict hi'" using aggregate_Inr(1) [OF hi'] by (simp add: wf_aggregate_def)
      show "set (map fst hi) = set (map fst hi')"
        by (simp only: aggregate_Inr(2) [OF hi] aggregate_Inr(2) [OF hi'] sets)
    next
      fix pid e e'
      assume e: "map_of hi pid = Some e" and e': "map_of hi' pid = Some e'"
      have "map_of e key = map_of e' key" for key
        using cells [of pid key] e e' by (simp add: cell_def)
      moreover have "wf_dict e"
        using aggregate_Inr(1) [OF hi] e by (rule wf_aggregate_entries)
      moreover have "wf_dict e'"
        using aggregate_Inr(1) [OF hi'] e' by (rule wf_aggregate_entries)
      ultimately show "dict_eq (=) e e'" by (simp add: dict_eq_same_map)
    qed
    with hi hi' show ?thesis by simp
  qed
qed

text \<open>
  The scenario and its reversal as an instance of C3: the two aggregates differ as lists
  and are equal as dictionaries.
\<close>

theorem aggregate_permutation_invariant_witness:
  "mset (rev scenario_records) = mset scenario_records
   \<and> aggregate uniform_calendar Month scenario_records = Inr [(1, [(0, 5), (1, 3)]), (2, [(0, 2)])]
   \<and> aggregate uniform_calendar Month (rev scenario_records)
       = Inr [(2, [(0, 2)]), (1, [(1, 3), (0, 5)])]
   \<and> dict_eq (dict_eq (=)) [(1::int, [(0::int, 5::int), (1, 3)]), (2, [(0, 2)])]
       [(2, [(0, 2)]), (1, [(1, 3), (0, 5)])]"
proof -
  have a: "mset (rev scenario_records) = mset scenario_records" by simp
  have b: "aggregate uniform_calendar Month scenario_records
             = Inr [(1, [(0, 5), (1, 3)]), (2, [(0, 2)])]"
    by (simp add: aggregate_def scenario_loop)
  have c: "aggregate uniform_calendar Month (rev scenario_records)
             = Inr [(2, [(0, 2)]), (1, [(1, 3), (0, 5)])]"
    by (simp add: aggregate_def scenario_records_def loop_body_def convert_date_def contains_def
        getitem_def uniform_calendar_def P1_def P2_def)
  from aggregate_permutation_invariant [OF a, of uniform_calendar Month] a b c
  show ?thesis by simp
qed

section \<open>The response formatter writes only to objects it allocates\<close>

lemma load_Some_iff: "load h a = Some x \<longleftrightarrow> a < length h \<and> h ! a = x"
  by (auto simp: load_def)

lemma zero_fill_heap_frame:
  "zero_fill_heap ea ha ks h = Inr h' \<Longrightarrow> n \<le> ha
     \<Longrightarrow> length h' = length h \<and> take n h' = take n h"
proof (induction ks arbitrary: h)
  case Nil
  then show ?case by simp
next
  case (Cons k ks)
  from Cons.prems(1) obtain entries history where
    "zero_fill_heap ea ha ks
       (if \<not> contains k (entries :: (_ \<times> int) list)
        then h[ha := Items (history @ [(k, 0)])] else h) = Inr h'"
    by (auto split: option.splits obj.splits)
  from Cons.IH [OF this Cons.prems(2)] Cons.prems(2) show ?case
    by (auto split: if_splits)
qed

lemma response_loop_heap_frame:
  "response_loop_heap dr part_dict ra items h = Inr h' \<Longrightarrow> n \<le> ra \<Longrightarrow> n \<le> length h
     \<Longrightarrow> length h \<le> length h' \<and> take n h' = take n h"
proof (induction items arbitrary: h)
  case Nil
  then show ?case by simp
next
  case (Cons x items)
  obtain part_id ea where x: "x = (part_id, ea)" by (cases x)
  from Cons.prems(1) x obtain entries h2 history p response where
    z: "zero_fill_heap ea (length h) dr (h @ [Items entries]) = Inr h2"
    and r: "response_loop_heap dr part_dict ra items
              ((h2 @ [Items (sort_key fst history)])[ra := Resp (response @ [(p, length h2)])])
            = Inr h'"
    by (auto simp: alloc_def split: option.splits obj.splits sum.splits)
  from zero_fill_heap_frame [OF z Cons.prems(3)] Cons.prems(3)
  have l2: "length h2 = Suc (length h)" and t2: "take n h2 = take n h"
    by simp_all
  let ?h4 = "(h2 @ [Items (sort_key fst history)])[ra := Resp (response @ [(p, length h2)])]"
  have "n \<le> length ?h4" using l2 Cons.prems(3) by simp
  from Cons.IH [OF r Cons.prems(2) this]
  have "length ?h4 \<le> length h'" and "take n h' = take n ?h4" by simp_all
  moreover have "take n ?h4 = take n h"
    using t2 l2 Cons.prems(2,3) by simp
  ultimately show ?case using l2 by simp
qed

lemma heap_holds_frame:
  assumes "heap_holds h hia hi" and "\<forall>a < length h. load h' a = load h a"
  shows "heap_holds h' hia hi"
proof -
  from assms(1) obtain items where
    outer: "load h hia = Some (Outer items)"
    and keys: "map fst items = map fst hi"
    and loads: "map (\<lambda>x. load h (snd x)) items = map (\<lambda>x. Some (Entries (snd x))) hi"
    by (auto simp: heap_holds_def split: option.splits obj.splits)
  from outer have "hia < length h" by (simp add: load_Some_iff)
  with assms(2) outer have outer': "load h' hia = Some (Outer items)" by simp
  have "load h' (snd y) = load h (snd y)" if "y \<in> set items" for y
  proof -
    from that loads obtain e where "load h (snd y) = Some (Entries e)"
      by (metis (no_types, lifting) in_set_conv_nth length_map nth_map)
    then have "snd y < length h" by (simp add: load_Some_iff)
    with assms(2) show ?thesis by simp
  qed
  then have "map (\<lambda>x. load h' (snd x)) items = map (\<lambda>x. load h (snd x)) items" by simp
  with outer' keys loads show ?thesis by (simp add: heap_holds_def)
qed

text \<open>
  C8: when the structured branch of \<^verbatim>\<open>format_response\<close> returns, every object that was
  in the heap before the call, the \<^verbatim>\<open>history_items\<close> dictionary and every entries
  dictionary among them, is what it was: the heap has only grown. A heap that held an
  aggregate at \<open>hia\<close> before the call holds the same aggregate there after it, so the
  aggregate can be used again for the export.
\<close>

theorem format_response_frame:
  assumes "format_response_heap self part_dict hia h = Inr (ra, h')"
  shows "length h \<le> length h' \<and> take (length h) h' = h
       \<and> (\<forall>a < length h. load h' a = load h a)
       \<and> (heap_holds h hia history_items \<longrightarrow> heap_holds h' hia history_items)"
proof -
  from assms obtain items where
    r: "response_loop_heap (date_range self) part_dict (length h) items (h @ [Resp []]) = Inr h'"
    by (auto simp: format_response_heap_def alloc_def split: option.splits obj.splits sum.splits)
  from response_loop_heap_frame [OF r, of "length h"]
  have len: "length h \<le> length h'" and t: "take (length h) h' = h" by simp_all
  have "load h' a = load h a" if "a < length h" for a
  proof -
    from that have "take (length h) h' ! a = h' ! a" by simp
    with t that len show ?thesis by (simp add: load_def)
  qed
  then have same: "\<forall>a < length h. load h' a = load h a" by simp
  then have "heap_holds h' hia history_items" if "heap_holds h hia history_items"
    using that by (rule heap_holds_frame [rotated])
  with len t same show ?thesis by simp
qed

lemma scenario_heap_run:
  "format_response_heap scenario_handler [(1, P1), (2, P2)] 0 scenario_heap =
     Inr (3, scenario_heap @
            [Resp [(P1, 5), (P2, 7)],
             Items [(0, 5), (1, 3), (2, 0)], Items [(0, 5), (1, 3), (2, 0)],
             Items [(0, 2), (1, 0), (2, 0)], Items [(0, 2), (1, 0), (2, 0)]])"
  by (simp add: format_response_heap_def scenario_heap_def scenario_handler_def alloc_def
      load_def contains_def getitem_def)

lemma scenario_heap_holds:
  "heap_holds scenario_heap 0 [(1, [(0, 5), (1, 3)]), (2, [(0, 2)])]"
  by (simp add: heap_holds_def scenario_heap_def load_def)

text \<open>The scenario as an instance of C8.\<close>

theorem format_response_frame_witness:
  "format_response_heap scenario_handler [(1, P1), (2, P2)] 0 scenario_heap =
     Inr (3, scenario_heap @
            [Resp [(P1, 5), (P2, 7)],
             Items [(0, 5), (1, 3), (2, 0)], Items [(0, 5), (1, 3), (2, 0)],
             Items [(0, 2), (1, 0), (2, 0)], Items [(0, 2), (1, 0), (2, 0)]])
   \<and> take (length scenario_heap)
        (scenario_heap @
            [Resp [(P1, 5), (P2, 7)],
             Items [(0, 5), (1, 3), (2, 0)], Items [(0, 5), (1, 3), (2, 0)],
             Items [(0, 2), (1, 0), (2, 0)], Items [(0, 2), (1, 0), (2, 0)]]) = scenario_heap
   \<and> heap_holds scenario_heap 0 [(1, [(0, 5), (1, 3)]), (2, [(0, 2)])]
   \<and> heap_holds
        (scenario_heap @
            [Resp [(P1, 5), (P2, 7)],
             Items [(0, 5), (1, 3), (2, 0)], Items [(0, 5), (1, 3), (2, 0)],
             Items [(0, 2), (1, 0), (2, 0)], Items [(0, 2), (1, 0), (2, 0)]])
        0 [(1, [(0, 5), (1, 3)]), (2, [(0, 2)])]"
  using format_response_frame [OF scenario_heap_run, of "[(1, [(0, 5), (1, 3)]), (2, [(0, 2)])]"]
    scenario_heap_run scenario_heap_holds
  by simp

subsection \<open>The heap formatter computes the response of the formatter on values\<close>

text \<open>
  On a heap that holds an aggregate, the formatter on the heap fails exactly when
  \<^verbatim>\<open>response_loop\<close> on the aggregate fails, and otherwise leaves at the returned address
  the response that \<^verbatim>\<open>response_loop\<close> computes.
\<close>

lemma zero_fill_heap_result:
  assumes "load h ea = Some (Entries entries)" and "load h ha = Some (Items history)"
  shows "zero_fill_heap ea ha ks h = Inr (h[ha := Items (zero_fill entries history ks)])"
  using assms
proof (induction ks arbitrary: h history)
  case Nil
  then have "h[ha := Items history] = h"
    by (auto simp: load_Some_iff list_update_same_conv)
  then show ?case by simp
next
  case (Cons k ks)
  from Cons.prems have ne: "ea \<noteq> ha" by auto
  let ?history' = "if \<not> contains k entries then history @ [(k, 0)] else history"
  let ?h' = "if \<not> contains k entries then h[ha := Items (history @ [(k, 0)])] else h"
  from Cons.prems ne have e: "load ?h' ea = Some (Entries entries)"
    by (simp add: load_Some_iff)
  from Cons.prems have i: "load ?h' ha = Some (Items ?history')"
    by (simp add: load_Some_iff)
  from Cons.IH [OF e i] Cons.prems show ?case
    by simp
qed

lemma response_loop_heap_sim:
  assumes "load h ra = Some (Resp rs)"
    and "map fst items = map fst hi"
    and "map (\<lambda>x. load h (snd x)) items = map (\<lambda>x. Some (Entries (snd x))) hi"
  shows "if set (map fst hi) \<subseteq> set (map fst pd)
         then \<exists>h' rs'. response_loop_heap dr pd ra items h = Inr h'
                \<and> length h \<le> length h'
                \<and> (\<forall>a < length h. a \<noteq> ra \<longrightarrow> h' ! a = h ! a)
                \<and> load h' ra = Some (Resp (rs @ rs'))
                \<and> (\<forall>x \<in> set rs'. snd x \<noteq> ra)
                \<and> map (\<lambda>x. (fst x, load h' (snd x))) rs'
                    = map (\<lambda>x. (the (map_of pd (fst x)), Some (Items (dense_history dr (snd x))))) hi
         else response_loop_heap dr pd ra items h = Inl KeyError"
  using assms
proof (induction hi arbitrary: items h rs)
  case Nil
  then show ?case by simp
next
  case (Cons x hi)
  obtain pid entries where x: "x = (pid, entries)" by (cases x)
  from Cons.prems(2) x obtain ea items' where items: "items = (pid, ea) # items'"
    and keys': "map fst items' = map fst hi"
    by (cases items) auto
  from Cons.prems(3) x items have ea: "load h ea = Some (Entries entries)"
    and loads': "map (\<lambda>x. load h (snd x)) items' = map (\<lambda>x. Some (Entries (snd x))) hi"
    by simp_all
  from Cons.prems(1) have ra: "ra < length h" "h ! ra = Resp rs" by (simp_all add: load_Some_iff)
  from ea have eal: "ea < length h" "h ! ea = Entries entries" by (simp_all add: load_Some_iff)
  let ?h1 = "h @ [Items entries]"
  let ?ha = "length h"
  let ?d = "dense_history dr entries"
  let ?h2 = "?h1[?ha := Items (zero_fill entries entries dr)]"
  let ?sa = "Suc (length h)"
  let ?h3 = "?h2 @ [Items ?d]"
  have z: "zero_fill_heap ea ?ha dr ?h1 = Inr ?h2"
    by (rule zero_fill_heap_result) (use eal in \<open>simp_all add: load_Some_iff nth_append\<close>)
  have l2: "load ?h2 ?ha = Some (Items (zero_fill entries entries dr))"
    by (simp add: load_Some_iff)
  show ?case
  proof (cases "map_of pd pid")
    case None
    then have "pid \<notin> set (map fst pd)" by (simp add: map_of_eq_None_iff)
    moreover have "load (h @ [Items (zero_fill entries entries dr)]) (length h)
        = Some (Items (zero_fill entries entries dr))"
      by (simp add: load_def)
    moreover have "zero_fill_heap ea (length h) dr (h @ [Items entries])
        = Inr (h @ [Items (zero_fill entries entries dr)])"
      using z by simp
    ultimately have "response_loop_heap dr pd ra items h = Inl KeyError"
      using None ea by (simp add: items alloc_def getitem_def)
    moreover note \<open>pid \<notin> set (map fst pd)\<close>
    ultimately show ?thesis using x by simp
  next
    case (Some p)
    then have pin: "pid \<in> set (map fst pd)"
      by (metis map_of_eq_None_iff option.distinct(1) set_map)
    let ?h4 = "?h3[ra := Resp (rs @ [(p, ?sa)])]"
    let ?zf = "zero_fill entries entries dr"
    have z': "zero_fill_heap ea (length h) dr (h @ [Items entries]) = Inr (h @ [Items ?zf])"
      using z by simp
    have l2': "load (h @ [Items ?zf]) (length h) = Some (Items ?zf)"
      by (simp add: load_def)
    have l3': "load (h @ [Items ?zf, Items (sort_key fst ?zf)]) ra = Some (Resp rs)"
      using ra by (simp add: load_def nth_append)
    have step: "response_loop_heap dr pd ra items h = response_loop_heap dr pd ra items' ?h4"
      by (simp add: items alloc_def getitem_def dense_history_def Some ea z' l2' l3')
    have old: "?h4 ! a = h ! a" if "a < length h" "a \<noteq> ra" for a
      using that by (simp add: nth_append)
    have r4: "load ?h4 ra = Some (Resp (rs @ [(p, ?sa)]))"
      using ra by (simp add: load_Some_iff)
    have "load ?h4 (snd y) = load h (snd y)" if "y \<in> set items'" for y
    proof -
      from that loads' obtain e where "load h (snd y) = Some (Entries e)"
        by (metis (no_types, lifting) in_set_conv_nth length_map nth_map)
      then have "snd y < length h" "h ! snd y = Entries e" by (simp_all add: load_Some_iff)
      with ra have "snd y \<noteq> ra" by auto
      with \<open>snd y < length h\<close> old [of "snd y"] show ?thesis
        by (simp add: load_def)
    qed
    then have "map (\<lambda>x. load ?h4 (snd x)) items' = map (\<lambda>x. load h (snd x)) items'"
      by simp
    with loads' have l4: "map (\<lambda>x. load ?h4 (snd x)) items' = map (\<lambda>x. Some (Entries (snd x))) hi"
      by simp
    note IH = Cons.IH [OF r4 keys' l4]
    show ?thesis
    proof (cases "set (map fst hi) \<subseteq> set (map fst pd)")
      case False
      with IH step x show ?thesis by simp
    next
      case True
      with IH obtain h' rs' where
        run: "response_loop_heap dr pd ra items' ?h4 = Inr h'"
        and len: "length ?h4 \<le> length h'"
        and frame: "\<forall>a < length ?h4. a \<noteq> ra \<longrightarrow> h' ! a = ?h4 ! a"
        and resp: "load h' ra = Some (Resp ((rs @ [(p, ?sa)]) @ rs'))"
        and fresh: "\<forall>x \<in> set rs'. snd x \<noteq> ra"
        and dec: "map (\<lambda>x. (fst x, load h' (snd x))) rs'
                    = map (\<lambda>x. (the (map_of pd (fst x)), Some (Items (dense_history dr (snd x))))) hi"
        by auto
      from ra have sa_ne: "?sa \<noteq> ra" by simp
      from frame sa_ne have "h' ! ?sa = ?h4 ! ?sa" by simp
      then have "h' ! ?sa = Items ?d" using sa_ne by (simp add: nth_append)
      with len have lsa: "load h' ?sa = Some (Items ?d)" by (simp add: load_Some_iff)
      have f: "\<forall>a < length h. a \<noteq> ra \<longrightarrow> h' ! a = h ! a"
        using frame old by simp
      have "response_loop_heap dr pd ra items h = Inr h'" using step run by simp
      moreover have "length h \<le> length h'" using len by simp
      moreover have "load h' ra = Some (Resp (rs @ ((p, ?sa) # rs')))" using resp by simp
      moreover have "\<forall>x \<in> set ((p, ?sa) # rs'). snd x \<noteq> ra" using fresh sa_ne by simp
      moreover have "map (\<lambda>x. (fst x, load h' (snd x))) ((p, ?sa) # rs')
                    = map (\<lambda>x. (the (map_of pd (fst x)), Some (Items (dense_history dr (snd x)))))
                        (x # hi)"
        using dec lsa Some x by simp
      ultimately show ?thesis using True pin x f by auto
    qed
  qed
qed

lemma response_loop_Inl:
  "response_loop dr pd acc hi = Inl e \<Longrightarrow> e = KeyError"
proof (induction hi arbitrary: acc)
  case Nil
  then show ?case by simp
next
  case (Cons x hi)
  obtain pid entries where x: "x = (pid, entries)" by (cases x)
  show ?case
  proof (cases "map_of pd pid")
    case None
    with Cons.prems x show ?thesis by (simp add: getitem_def)
  next
    case (Some p)
    with Cons.prems x
    have "response_loop dr pd (acc @ [(p, dense_history dr entries)]) hi = Inl e"
      by (simp add: getitem_def)
    then show ?thesis by (rule Cons.IH)
  qed
qed

lemma response_loop_missing_key:
  assumes "\<not> set (map fst hi) \<subseteq> set (map fst pd)"
  shows "response_loop dr pd acc hi = Inl KeyError"
proof (cases "response_loop dr pd acc hi")
  case (Inl e)
  then show ?thesis using response_loop_Inl [OF Inl] by simp
next
  case (Inr r)
  then have "set (map fst hi) \<subseteq> set (map fst pd)" by (rule response_loop_Inr_keys)
  with assms show ?thesis by simp
qed

lemma format_response_heap_refines:
  assumes "heap_holds h hia hi"
  shows "case response_loop (date_range self) pd [] hi of
           Inl e \<Rightarrow> format_response_heap self pd hia h = Inl e
         | Inr response \<Rightarrow>
             (\<exists>h'. format_response_heap self pd hia h = Inr (length h, h')
                  \<and> response_at h' (length h) = response
                  \<and> heap_holds h' hia hi)"
proof -
  let ?dr = "date_range self"
  let ?h0 = "h @ [Resp []]"
  let ?ra = "length h"
  from assms obtain items where
    outer: "load h hia = Some (Outer items)"
    and keys: "map fst items = map fst hi"
    and loads: "map (\<lambda>x. load h (snd x)) items = map (\<lambda>x. Some (Entries (snd x))) hi"
    by (auto simp: heap_holds_def split: option.splits obj.splits)
  from outer have hia: "hia < length h" "h ! hia = Outer items" by (simp_all add: load_Some_iff)
  then have outer0: "load ?h0 hia = Some (Outer items)" by (simp add: load_Some_iff nth_append)
  have in_h: "snd y < length h" if "y \<in> set items" for y
  proof -
    from that loads obtain e where "load h (snd y) = Some (Entries e)"
      by (metis (no_types, lifting) in_set_conv_nth length_map nth_map)
    then show ?thesis by (simp add: load_Some_iff)
  qed
  have "load ?h0 (snd y) = load h (snd y)" if "y \<in> set items" for y
    using in_h [OF that] by (simp add: load_def nth_append)
  then have "map (\<lambda>x. load ?h0 (snd x)) items = map (\<lambda>x. load h (snd x)) items" by simp
  with loads have loads0: "map (\<lambda>x. load ?h0 (snd x)) items = map (\<lambda>x. Some (Entries (snd x))) hi"
    by simp
  have r0: "load ?h0 ?ra = Some (Resp [])" by (simp add: load_Some_iff)
  note sim = response_loop_heap_sim [OF r0 keys loads0, of pd ?dr]
  have unfold: "format_response_heap self pd hia h =
      (case response_loop_heap ?dr pd ?ra items ?h0 of Inl e \<Rightarrow> Inl e | Inr h' \<Rightarrow> Inr (?ra, h'))"
    by (simp add: format_response_heap_def alloc_def outer0)
  show ?thesis
  proof (cases "set (map fst hi) \<subseteq> set (map fst pd)")
    case False
    with sim have "response_loop_heap ?dr pd ?ra items ?h0 = Inl KeyError" by simp
    with unfold response_loop_missing_key [OF False, of ?dr "[]"] show ?thesis by simp
  next
    case True
    with sim obtain h' rs' where
      run: "response_loop_heap ?dr pd ?ra items ?h0 = Inr h'"
      and len: "length ?h0 \<le> length h'"
      and frame: "\<forall>a < length ?h0. a \<noteq> ?ra \<longrightarrow> h' ! a = ?h0 ! a"
      and resp: "load h' ?ra = Some (Resp ([] @ rs'))"
      and dec: "map (\<lambda>x. (fst x, load h' (snd x))) rs'
                  = map (\<lambda>x. (the (map_of pd (fst x)), Some (Items (dense_history ?dr (snd x))))) hi"
      by auto
    let ?g = "\<lambda>x :: part \<times> 'a obj option.
                (fst x, case snd x of Some (Items xs) \<Rightarrow> xs | _ \<Rightarrow> [])"
    from dec have "map ?g (map (\<lambda>x. (fst x, load h' (snd x))) rs')
        = map ?g (map (\<lambda>x. (the (map_of pd (fst x)), Some (Items (dense_history ?dr (snd x))))) hi)"
      by simp
    then have "map (\<lambda>x. (fst x, items_at h' (snd x))) rs'
        = map (\<lambda>x. (the (map_of pd (fst x)), dense_history ?dr (snd x))) hi"
      by (simp add: items_at_def comp_def)
    with resp have decoded: "response_at h' ?ra
        = map (\<lambda>x. (the (map_of pd (fst x)), dense_history ?dr (snd x))) hi"
      by (simp add: response_at_def)
    have same: "load h' a = load h a" if "a < length h" for a
    proof -
      from that frame have "h' ! a = ?h0 ! a" by simp
      with that len show ?thesis by (simp add: load_def nth_append)
    qed
    from hia same have "load h' hia = Some (Outer items)" using outer by simp
    moreover have "map (\<lambda>x. load h' (snd x)) items = map (\<lambda>x. load h (snd x)) items"
      using same in_h by simp
    ultimately have "heap_holds h' hia hi"
      using keys loads by (simp add: heap_holds_def)
    with unfold run decoded response_loop_closed [OF True, of ?dr "[]"] show ?thesis by simp
  qed
qed

section \<open>The handler: errors and dispatch\<close>

lemma construct_date_range_strict:
  "construct_date_range bk s e p = Inr dr \<Longrightarrow> sorted_wrt (<) dr"
  by (auto simp: construct_date_range_def strict_sorted_iff split: if_splits)

text \<open>
  C7: a record without a completion timestamp that reaches the loop makes its own
  iteration fail with \<^verbatim>\<open>MissingTimestampError\<close>, and with it the loop over any record list
  that contains it, from any starting state: the record is neither skipped nor put into
  a bucket.
\<close>

theorem missing_timestamp_fails:
  assumes "b \<in> set records" and "completion_date b = None"
  shows "loop_body bk per st b = Inl MissingTimestampError
       \<and> build_loop bk per st' records = Inl MissingTimestampError
       \<and> aggregate bk per records = Inl MissingTimestampError"
proof -
  from assms have "\<exists>b \<in> set records. completion_date b = None" by blast
  then have "build_loop bk per s records = Inl MissingTimestampError" for s
    by (rule build_loop_missing)
  with assms(2) show ?thesis
    by (simp add: loop_body_None aggregate_def)
qed

text \<open>The scenario with a fourth record that has no timestamp, as an instance of C7.\<close>

theorem missing_timestamp_fails_witness:
  "\<lparr>build_part = P2, status = 40, completed = 1, quantity = 7, completion_date = None\<rparr>
     \<in> set (scenario_records
          @ [\<lparr>build_part = P2, status = 40, completed = 1, quantity = 7, completion_date = None\<rparr>])
   \<and> completion_date
        \<lparr>build_part = P2, status = 40, completed = 1, quantity = 7, completion_date = None\<rparr> = None
   \<and> aggregate uniform_calendar Month
        (scenario_records
          @ [\<lparr>build_part = P2, status = 40, completed = 1, quantity = 7, completion_date = None\<rparr>])
       = Inl MissingTimestampError"
proof -
  let ?b = "\<lparr>build_part = P2, status = 40, completed = 1, quantity = 7, completion_date = None\<rparr>"
  have a: "?b \<in> set (scenario_records @ [?b])" by simp
  have b: "completion_date ?b = None" by simp
  from missing_timestamp_fails [OF a b, of uniform_calendar Month] a b show ?thesis by simp
qed









section \<open>The build history through the handler\<close>

text \<open>
  The records that the query passes to the loop have a completion date inside the
  requested range, so every bucket key of the aggregate belongs to the date range that
  \<^verbatim>\<open>get\<close> constructed: on the whole handler, the keys of every history of a structured
  build response are the date range itself.
\<close>

lemma build_query_in_range:
  assumes "b \<in> set (build_query env self)"
  shows "\<exists>d. completion_date b = Some d \<and> start_date self \<le> d \<and> d \<le> end_date self"
  using assms by (auto simp: build_query_def Let_def split: option.splits)

lemma construct_date_range_set:
  assumes "construct_date_range bk s e p = Inr dr"
  shows "set dr = (\<lambda>d. bk d p) ` {s..e}"
  using assms by (auto simp: construct_date_range_def split: if_splits)

lemma build_loop_entry_keys:
  assumes "build_loop bk per ([], []) records = Inr (parts, hi)"
    and "(pid, entries) \<in> set hi" and "key \<in> set (map fst entries)"
  shows "\<exists>b \<in> set records. pk (build_part b) = pid
           \<and> (\<exists>t. completion_date b = Some t \<and> bk t per = key)"
proof -
  from build_loop_wf [OF assms(1)] have wf: "wf_dict hi"
    by (simp add: wf_aggregate_def wf_dict_def)
  from wf assms(2) have e: "map_of hi pid = Some entries"
    unfolding wf_dict_def by (rule map_of_is_SomeI)
  from assms(3) have "\<exists>v. map_of entries key = Some v" by (rule key_present)
  with e have "cell hi pid key \<noteq> None" by (auto simp: cell_def)
  with build_loop_cell [OF assms(1), of pid key]
  have "matching bk per pid key records \<noteq> []"
    by (auto simp: cell_def split: if_splits)
  then obtain b where "b \<in> set (matching bk per pid key records)"
    by (cases "matching bk per pid key records") auto
  then show ?thesis
    by (auto simp: matching_def split: option.splits)
qed

lemma get_build_history_dense:
  assumes "get env data = Inr (Response response)" and "order_type data = Some ''build''"
  shows "\<exists>dr. construct_date_range (bucket_key env) (start_date data) (end_date data) (period data)
                = Inr dr
              \<and> (\<forall>x \<in> set response. map fst (snd x) = dr)"
proof -
  let ?bk = "bucket_key env"
  from assms(1) obtain dr where
    dr: "construct_date_range ?bk (start_date data) (end_date data) (period data) = Inr dr"
    by (auto simp: get_def split: sum.splits)
  define self where "self = \<lparr>start_date = start_date data, end_date = end_date data,
                       period = period data, order_type = order_type data,
                       part_filter = part_filter data, export_format = export_format data,
                       date_range = dr\<rparr>"
  from assms dr have g: "generate_build_order_history env self = Inr (Response response)"
    by (simp add: get_def self_def Let_def)
  then obtain parts hi where
    loop: "build_loop ?bk (period self) ([], []) (build_query env self) = Inr (parts, hi)"
    and fr: "format_response (export_sink env) self parts hi = Inr (Response response)"
    by (auto simp: generate_build_order_history_def split: sum.splits)
  from format_response_Response [OF fr]
  have resp: "response = map (\<lambda>x. (the (map_of parts (fst x)), dense_history dr (snd x))) hi"
    by (simp add: self_def)
  from build_loop_wf [OF loop] have wfa: "wf_aggregate hi"
    by (simp add: wf_aggregate_def wf_dict_def)
  have "map fst (dense_history dr (snd y)) = dr" if y: "y \<in> set hi" for y
  proof (rule dense_history_keys_canonical)
    from wfa y show "wf_dict (snd y)" by (auto simp: wf_aggregate_def list_all_iff)
    show "sorted_wrt (<) dr" using dr by (rule construct_date_range_strict)
    show "set (map fst (snd y)) \<subseteq> set dr"
    proof
      fix key assume "key \<in> set (map fst (snd y))"
      with loop y obtain b t where b: "b \<in> set (build_query env self)"
        and t: "completion_date b = Some t" "?bk t (period self) = key"
        using build_loop_entry_keys [of ?bk "period self" "build_query env self" parts hi
            "fst y" "snd y" key]
        by auto
      from build_query_in_range [OF b] t have "start_date self \<le> t \<and> t \<le> end_date self"
        by simp
      then have "t \<in> {start_date data..end_date data}" by (simp add: self_def)
      with t(2) have "key \<in> (\<lambda>d. ?bk d (period data)) ` {start_date data..end_date data}"
        by (auto simp: self_def)
      with construct_date_range_set [OF dr] show "key \<in> set dr" by simp
    qed
  qed
  with resp have "\<forall>x \<in> set response. map fst (snd x) = dr" by auto
  with dr show ?thesis by blast
qed

text \<open>The scenario of section 8 of the specification, through \<^verbatim>\<open>get\<close>.\<close>

lemma scenario_get:
  "get scenario_env
     \<lparr>start_date = 0, end_date = 89, period = Month, order_type = Some ''build'',
      part_filter = None, export_format = None\<rparr>
   = Inr (Response [(P1, [(0, 5), (1, 3), (2, 0)]), (P2, [(0, 2), (1, 0), (2, 0)])])"
proof -
  have "sort (remdups (map (\<lambda>d. d div 30) [0..89::int])) = [0, 1, 2]"
    by code_simp
  then have dr: "construct_date_range uniform_calendar 0 89 Month = Inr [0, 1, 2]"
    by (simp add: construct_date_range_def uniform_calendar_def)
  have q: "build_query scenario_env scenario_handler = scenario_records"
    by (simp add: build_query_def scenario_env_def scenario_handler_def scenario_records_def)
  have "generate_build_order_history scenario_env scenario_handler
      = Inr (Response [(P1, [(0, 5), (1, 3), (2, 0)]), (P2, [(0, 2), (1, 0), (2, 0)])])"
    unfolding generate_build_order_history_def q
    using scenario_loop scenario_response
    by (simp add: scenario_env_def scenario_handler_def)
  with dr show ?thesis
    by (simp add: get_def scenario_env_def scenario_handler_def)
qed

end
